theory Spec2Isabelle
  imports Main "HOL-Library.AList"
begin

section \<open>Faults\<close>

text \<open>
  Every way in which the C++ code can leave its defined behaviour, or leave a call by an
  exception, is a value of \<open>fault\<close>. An operation returns \<open>Inl\<close> of the fault or
  \<open>Inr\<close> of its result. Data members are written without their trailing underscore
  (\<open>history\<close> is the member \<open>history_\<close>): a name that ends in an underscore cannot
  be used in a recursive definition. The member \<open>k_\<close> of the replacer is \<open>lru_k\<close>,
  and line numbers are those of the source file of the section.
\<close>

datatype fault =
    EmptyListAccess      \<comment> \<open>\<open>front()\<close> or \<open>back()\<close> of an empty \<open>std::list\<close>: undefined behaviour\<close>
  | InvalidArgument      \<comment> \<open>\<open>throw std::invalid_argument\<close>\<close>
  | IndexOutOfBounds     \<comment> \<open>\<open>pages_[i]\<close> outside the array: undefined behaviour\<close>
  | RelockedMutex        \<comment> \<open>\<open>std::mutex::lock\<close> by the thread that owns it: undefined behaviour, the call does not return\<close>
  | NullDereference      \<comment> \<open>\<open>operator->\<close> on an empty \<open>shared_ptr\<close>: undefined behaviour\<close>
  | OutOfRange           \<comment> \<open>\<open>std::string_view::at\<close> past the end: \<open>throw std::out_of_range\<close>\<close>

type_synonym frame_id_t = int
type_synonym page_id_t = int

text \<open>
  \<open>frame_id_t\<close> and \<open>page_id_t\<close> are 32-bit signed integers, read here as
  \<open>int\<close>. \<open>static_cast<size_t>\<close> of such a value keeps a non-negative value and
  sends a negative one to its residue modulo \<open>2 ^ 64\<close>.
\<close>

definition size_t_cast :: "int \<Rightarrow> nat" where
  "size_t_cast i = (if 0 \<le> i then nat i else nat (i + 2 ^ 64))"

section \<open>LRU-K replacer (src/buffer/lru\_k\_replacer.cpp)\<close>

text \<open>
  Modelled from the spec: the class declarations of \<open>buffer/lru_k_replacer.h\<close> are not
  among the sources. A replacer node holds its history of access timestamps, newest first
  (\<open>RecordAccess\<close> pushes at the front, line 74), and an evictable flag that starts out false; a
  node that \<open>operator[]\<close> creates has an empty history. Timestamps and sizes are
  \<open>size_t\<close>, read as \<open>nat\<close>; the decrement of \<open>curr_size\<close> wraps modulo
  \<open>2 ^ 64\<close>. The replacer's own mutex is taken once per call and never inside another
  call of the replacer, so it is always free on entry and is left out.
\<close>

record LRUKNode =
  history :: "nat list"
  is_evictable :: bool

definition default_node :: LRUKNode where
  "default_node = \<lparr>history = [], is_evictable = False\<rparr>"

record LRUKReplacer =
  node_store :: "frame_id_t \<rightharpoonup> LRUKNode"
  evictable_list :: "frame_id_t list"
  current_timestamp :: nat
  curr_size :: nat
  replacer_size :: nat
  lru_k :: nat

definition LRUKReplacer_init :: "nat \<Rightarrow> nat \<Rightarrow> LRUKReplacer" where
  "LRUKReplacer_init num_frames k =
     \<lparr>node_store = Map.empty, evictable_list = [], current_timestamp = 0,
      curr_size = 0, replacer_size = num_frames, lru_k = k\<rparr>"

text \<open>\<open>node_store[f]\<close>: the node of \<open>f\<close>, created empty when \<open>f\<close> has none.\<close>

definition node_at :: "(frame_id_t \<rightharpoonup> LRUKNode) \<Rightarrow> frame_id_t \<Rightarrow> LRUKNode \<times> (frame_id_t \<rightharpoonup> LRUKNode)" where
  "node_at ns f = (case ns f of Some n \<Rightarrow> (n, ns) | None \<Rightarrow> (default_node, ns(f \<mapsto> default_node)))"

definition size_t_dec :: "nat \<Rightarrow> nat" where
  "size_t_dec n = (n + 2 ^ 64 - 1) mod 2 ^ 64"

definition size_t_inc :: "nat \<Rightarrow> nat" where
  "size_t_inc n = (n + 1) mod 2 ^ 64"

text \<open>
  \<open>std::map<size_t, iterator>::insert\<close>: the map is kept as a list of (key, iterator)
  pairs in increasing key order; an insertion under a key already present changes nothing.
  An iterator into \<open>evictable_list\<close> is the position it points to.
\<close>

fun map_insert :: "nat \<times> nat \<Rightarrow> (nat \<times> nat) list \<Rightarrow> (nat \<times> nat) list" where
  "map_insert kv [] = [kv]"
| "map_insert kv (kv' # m) =
     (if fst kv < fst kv' then kv # kv' # m
      else if fst kv = fst kv' then kv' # m
      else kv' # map_insert kv m)"

text \<open>\<open>std::list::erase(it)\<close>: the list without the element at the iterator's position.\<close>

definition list_erase :: "'a list \<Rightarrow> nat \<Rightarrow> 'a list" where
  "list_erase xs i = take i xs @ drop (Suc i) xs"

text \<open>
  The first loop of \<open>Evict\<close> (lines 35-40), from position \<open>i\<close> over the rest
  \<open>fs\<close> of \<open>evictable_list\<close>: every frame with fewer than \<open>k\<close> accesses is
  entered under \<open>history.front()\<close>, its newest timestamp.
\<close>

fun less_k_scan ::
  "nat \<Rightarrow> nat \<Rightarrow> frame_id_t list \<Rightarrow> (frame_id_t \<rightharpoonup> LRUKNode) \<Rightarrow> (nat \<times> nat) list
     \<Rightarrow> fault + ((nat \<times> nat) list \<times> (frame_id_t \<rightharpoonup> LRUKNode))" where
  "less_k_scan k i [] ns less_k_frames = Inr (less_k_frames, ns)"
| "less_k_scan k i (f # fs) ns less_k_frames =
     (case node_at ns f of (node, ns') \<Rightarrow>
        if length (history node) < k then
          (case history node of
             [] \<Rightarrow> Inl EmptyListAccess
           | front # _ \<Rightarrow> less_k_scan k (Suc i) fs ns' (map_insert (front, i) less_k_frames))
        else less_k_scan k (Suc i) fs ns' less_k_frames)"

text \<open>
  The second loop of \<open>Evict\<close> (lines 51-58): \<open>it\<close> (position and frame) is the best
  candidate so far, \<open>i\<close> the position of \<open>evict_it\<close>; the comparison is on
  \<open>history.back()\<close>, the oldest timestamp kept.
\<close>

fun back_scan ::
  "nat \<Rightarrow> frame_id_t list \<Rightarrow> nat \<times> frame_id_t \<Rightarrow> (frame_id_t \<rightharpoonup> LRUKNode)
     \<Rightarrow> fault + ((nat \<times> frame_id_t) \<times> (frame_id_t \<rightharpoonup> LRUKNode))" where
  "back_scan i [] it ns = Inr (it, ns)"
| "back_scan i (f # fs) it ns =
     (case node_at ns f of (node, ns1) \<Rightarrow>
      case node_at ns1 (snd it) of (best, ns2) \<Rightarrow>
        if history node = [] \<or> history best = [] then Inl EmptyListAccess
        else if last (history node) < last (history best) then back_scan (Suc i) fs (i, f) ns2
        else back_scan (Suc i) fs it ns2)"

text \<open>
  \<open>Evict\<close> returns \<open>None\<close> for \<open>false\<close> and \<open>Some frame_id\<close> for \<open>true\<close>
  with \<open>*frame_id\<close> written.
\<close>

definition Evict :: "LRUKReplacer \<Rightarrow> fault + (frame_id_t option \<times> LRUKReplacer)" where
  "Evict r =
     (case evictable_list r of
        [] \<Rightarrow> Inr (None, r)
      | first # _ \<Rightarrow>
          (case less_k_scan (lru_k r) 0 (evictable_list r) (node_store r) [] of
             Inl e \<Rightarrow> Inl e
           | Inr (less_k_frames, ns) \<Rightarrow>
               (case less_k_frames of
                  (front, pos) # _ \<Rightarrow>
                    (let erase_frame_id = evictable_list r ! pos in
                     Inr (Some erase_frame_id,
                          r\<lparr>node_store := ns(erase_frame_id := None),
                            evictable_list := list_erase (evictable_list r) pos,
                            curr_size := size_t_dec (curr_size r)\<rparr>))
                | [] \<Rightarrow>
                    (case back_scan 0 (evictable_list r) (0, first) ns of
                       Inl e \<Rightarrow> Inl e
                     | Inr ((pos, frame_id), ns') \<Rightarrow>
                         Inr (Some frame_id,
                              r\<lparr>node_store := ns'(frame_id := None),
                                evictable_list := list_erase (evictable_list r) pos,
                                curr_size := size_t_dec (curr_size r)\<rparr>)))))"

definition RecordAccess :: "LRUKReplacer \<Rightarrow> frame_id_t \<Rightarrow> fault + LRUKReplacer" where
  "RecordAccess r frame_id =
     (if size_t_cast frame_id \<ge> replacer_size r then Inl InvalidArgument
      else
        (case node_at (node_store r) frame_id of (node, ns) \<Rightarrow>
           (let pushed = current_timestamp r # history node;
                kept = (if length pushed > lru_k r then butlast pushed else pushed)
            in Inr (r\<lparr>node_store := ns(frame_id \<mapsto> node\<lparr>history := kept\<rparr>),
                      current_timestamp := size_t_inc (current_timestamp r)\<rparr>))))"

definition SetEvictable :: "LRUKReplacer \<Rightarrow> frame_id_t \<Rightarrow> bool \<Rightarrow> fault + LRUKReplacer" where
  "SetEvictable r frame_id set_evictable =
     (if size_t_cast frame_id \<ge> replacer_size r then Inl InvalidArgument
      else
        (case node_at (node_store r) frame_id of (node, ns) \<Rightarrow>
           (let r1 =
                  (if set_evictable \<and> \<not> is_evictable node then
                     r\<lparr>evictable_list := evictable_list r @ [frame_id],
                       curr_size := size_t_inc (curr_size r)\<rparr>
                   else if \<not> set_evictable \<and> is_evictable node then
                     r\<lparr>evictable_list := removeAll frame_id (evictable_list r),
                       curr_size := size_t_dec (curr_size r)\<rparr>
                   else r)
            in Inr (r1\<lparr>node_store := ns(frame_id \<mapsto> node\<lparr>is_evictable := set_evictable\<rparr>)\<rparr>))))"

definition Size :: "LRUKReplacer \<Rightarrow> nat" where
  "Size r = curr_size r"

section \<open>Copy-on-write trie (src/primer/trie.cpp)\<close>

text \<open>
  Modelled from the spec: \<open>primer/trie.h\<close>, which declares the node classes, their
  constructors and \<open>Clone\<close>, is not among the sources. A trie node holds a mapping from
  characters to child nodes; the value-carrying subtype \<open>TrieNodeWithValue<T>\<close>
  additionally holds a value payload and sets \<open>is_value_node\<close>. A node is a value of
  \<open>TrieNode\<close>: its children (an association list with distinct keys, for the
  \<open>std::map\<close>), the flag, and \<open>node_value\<close> (the member \<open>value_\<close>), which is
  \<open>None\<close> for an object of class \<open>TrieNode\<close> and \<open>Some v\<close> for an object of
  class \<open>TrieNodeWithValue<T>\<close>, with \<open>T\<close> the type of \<open>v\<close>. \<open>Clone\<close> builds
  a new object of the same class from the children (and the value), so the constructor sets
  the flag of the copy anew. A trie is a handle to an optional root node.
\<close>

datatype value_type = T_uint32 | T_uint64 | T_string | T_Integer | T_MoveBlocked

text \<open>
  The payloads of the five instantiations at the end of trie.cpp; the content of a
  \<open>MoveBlocked\<close> is not represented.
\<close>

datatype tvalue =
    V_uint32 nat | V_uint64 nat | V_string string | V_Integer nat | V_MoveBlocked

fun type_of :: "tvalue \<Rightarrow> value_type" where
  "type_of (V_uint32 _) = T_uint32"
| "type_of (V_uint64 _) = T_uint64"
| "type_of (V_string _) = T_string"
| "type_of (V_Integer _) = T_Integer"
| "type_of V_MoveBlocked = T_MoveBlocked"

datatype TrieNode =
  TrieNode (children: "(char \<times> TrieNode) list") (is_value_node: bool) (node_value: "tvalue option")

datatype Trie = Trie (root: "TrieNode option")

definition TrieNode_new :: TrieNode where
  "TrieNode_new = TrieNode [] False None"

definition TrieNodeWithValue :: "(char \<times> TrieNode) list \<Rightarrow> tvalue \<Rightarrow> TrieNode" where
  "TrieNodeWithValue cs v = TrieNode cs True (Some v)"

definition Clone :: "TrieNode \<Rightarrow> TrieNode" where
  "Clone n = (case node_value n of None \<Rightarrow> TrieNode (children n) False None
              | Some v \<Rightarrow> TrieNodeWithValue (children n) v)"

text \<open>Assignments to members of a node that the caller owns.\<close>

definition set_is_value_node :: "TrieNode \<Rightarrow> bool \<Rightarrow> TrieNode" where
  "set_is_value_node n b = TrieNode (children n) b (node_value n)"

definition set_child :: "TrieNode \<Rightarrow> char \<Rightarrow> TrieNode \<Rightarrow> TrieNode" where
  "set_child n c x = TrieNode (AList.update c x (children n)) (is_value_node n) (node_value n)"

definition erase_child :: "TrieNode \<Rightarrow> char \<Rightarrow> TrieNode" where
  "erase_child n c = TrieNode (AList.delete c (children n)) (is_value_node n) (node_value n)"

text \<open>\<open>operator->\<close> on a \<open>shared_ptr\<close>.\<close>

definition deref :: "'a option \<Rightarrow> fault + 'a" where
  "deref p = (case p of None \<Rightarrow> Inl NullDereference | Some x \<Rightarrow> Inr x)"

text \<open>
  The loop of \<open>Get\<close> (lines 27-34): \<open>Inr None\<close> is the \<open>return nullptr\<close> inside
  the loop, \<open>Inr (Some current)\<close> the node pointer the loop ends with.
\<close>

fun Get_walk :: "TrieNode option \<Rightarrow> string \<Rightarrow> fault + TrieNode option option" where
  "Get_walk current [] = Inr (Some current)"
| "Get_walk current (ch # key) =
     (if current = None then Inr None
      else
        (case deref current of
           Inl e \<Rightarrow> Inl e
         | Inr node \<Rightarrow>
             (case map_of (children node) ch of
                None \<Rightarrow> Inr None
              | Some child \<Rightarrow> Get_walk (Some child) key)))"

text \<open>
  \<open>dynamic_cast<const TrieNodeWithValue<T> *>\<close>: a null pointer is cast to a null
  pointer, and a node to itself when it is an object of \<open>TrieNodeWithValue<T>\<close>.
\<close>

definition dynamic_cast :: "value_type \<Rightarrow> TrieNode option \<Rightarrow> TrieNode option" where
  "dynamic_cast T p =
     (case p of
        None \<Rightarrow> None
      | Some n \<Rightarrow>
          (case node_value n of
             None \<Rightarrow> None
           | Some v \<Rightarrow> if type_of v = T then Some n else None))"

definition Get :: "value_type \<Rightarrow> Trie \<Rightarrow> string \<Rightarrow> fault + tvalue option" where
  "Get T t key =
     (case Get_walk (root t) key of
        Inl e \<Rightarrow> Inl e
      | Inr None \<Rightarrow> Inr None
      | Inr (Some current) \<Rightarrow>
          (case dynamic_cast T current of
             None \<Rightarrow> Inr None
           | Some value_node \<Rightarrow>
               if \<not> is_value_node value_node then Inr None
               else Inr (node_value value_node)))"

text \<open>
  \<open>Putcycle\<close> changes the node \<open>new_root\<close> in place; here it returns the node
  after the change.
\<close>

fun Putcycle :: "TrieNode \<Rightarrow> string \<Rightarrow> tvalue \<Rightarrow> fault + TrieNode" where
  "Putcycle new_root [] v = Inl OutOfRange"
| "Putcycle new_root (c # rest) v =
     (case map_of (children new_root) c of
        Some iter \<Rightarrow>
          (if rest \<noteq> [] then
             (case Putcycle (Clone iter) rest v of
                Inl e \<Rightarrow> Inl e
              | Inr ptr \<Rightarrow> Inr (set_child new_root c ptr))
           else Inr (set_child new_root c (TrieNodeWithValue (children iter) v)))
      | None \<Rightarrow>
          (if rest = [] then Inr (set_child new_root c (TrieNodeWithValue [] v))
           else
             (case Putcycle TrieNode_new rest v of
                Inl e \<Rightarrow> Inl e
              | Inr ptr \<Rightarrow> Inr (set_child new_root c ptr))))"

definition Put :: "Trie \<Rightarrow> string \<Rightarrow> tvalue \<Rightarrow> fault + Trie" where
  "Put t key v =
     (if key = [] then
        (case deref (root t) of
           Inl e \<Rightarrow> Inl e
         | Inr r \<Rightarrow>
             if children r = [] then Inr (Trie (Some (TrieNodeWithValue [] v)))
             else Inr (Trie (Some (TrieNodeWithValue (children r) v))))
      else
        (let new_root = (case root t of None \<Rightarrow> TrieNode_new | Some r \<Rightarrow> Clone r) in
         case Putcycle new_root key v of
           Inl e \<Rightarrow> Inl e
         | Inr n \<Rightarrow> Inr (Trie (Some n))))"

text \<open>
  The first loop of \<open>Remove\<close> (lines 150-161) clones the nodes along the key. The clones
  are new objects that only the new root reaches, so the parent pointers of \<open>stacks\<close>
  are kept as the parent nodes themselves, deepest first (the head is
  \<open>stacks.back()\<close>), and the child a parent points to under its character is passed
  along: \<open>None\<close> is the \<open>return *this\<close> inside the loop.
\<close>

fun Remove_walk ::
  "TrieNode \<Rightarrow> string \<Rightarrow> (char \<times> TrieNode) list \<Rightarrow> ((char \<times> TrieNode) list \<times> TrieNode) option" where
  "Remove_walk current [] stacks = Some (stacks, current)"
| "Remove_walk current (ch # key) stacks =
     (case map_of (children current) ch of
        None \<Rightarrow> None
      | Some child \<Rightarrow>
          (let new_node = set_is_value_node (Clone child) (is_value_node child)
           in Remove_walk new_node key ((ch, current) # stacks)))"

text \<open>
  A parent with the current state of its child stored under the character, up to the
  root: what the new root reaches once the pruning loop has ended.
\<close>

fun Remove_link :: "(char \<times> TrieNode) list \<Rightarrow> TrieNode \<Rightarrow> TrieNode" where
  "Remove_link [] node = node"
| "Remove_link ((ch, parent) # stacks) node = Remove_link stacks (set_child parent ch node)"

text \<open>
  The pruning loop of \<open>Remove\<close> (lines 169-179): \<open>node\<close> is the child that the
  parent on top of the stack holds under its character.
\<close>

fun Remove_prune :: "(char \<times> TrieNode) list \<Rightarrow> TrieNode \<Rightarrow> TrieNode" where
  "Remove_prune [] node = node"
| "Remove_prune ((ch, parent) # stacks) node =
     (if children node = [] \<and> \<not> is_value_node node
      then Remove_prune stacks (erase_child parent ch)
      else Remove_link ((ch, parent) # stacks) node)"

definition Remove :: "Trie \<Rightarrow> string \<Rightarrow> Trie" where
  "Remove t key =
     (case root t of
        None \<Rightarrow> t
      | Some r \<Rightarrow>
          (let cloned = Clone r;
               new_root = (if \<not> is_value_node r then set_is_value_node cloned False else cloned)
           in if key = [] \<and> is_value_node new_root
              then Trie (Some (set_is_value_node new_root False))
              else
                (case Remove_walk new_root key [] of
                   None \<Rightarrow> t
                 | Some (stacks, current) \<Rightarrow>
                     if is_value_node current then
                       (let pruned = Remove_prune stacks (set_is_value_node current False)
                        in if \<not> is_value_node pruned \<and> children pruned = []
                           then Trie None
                           else Trie (Some pruned))
                     else t)))"

section \<open>Buffer pool manager (src/buffer/buffer\_pool\_manager.cpp)\<close>

text \<open>
  Modelled from the spec: \<open>storage/page/page.h\<close>, \<open>storage/disk/disk_scheduler.h\<close>
  and \<open>buffer/buffer_pool_manager.h\<close> are not among the sources. A page is a byte
  buffer of \<open>PAGE_SIZE\<close> bytes, a page id (negative, \<open>INVALID_PAGE_ID\<close>, when
  unassigned), a pin count and a dirty flag. A disk request is
  \<open>(is_write, data, page_id, completion)\<close>: \<open>data\<close> points into the frame's buffer
  and is kept as the frame's index; the completion is written by the worker thread and read
  by nobody in buffer\_pool\_manager.cpp (no call takes the future of a promise), so it is
  left out. \<open>Schedule\<close> appends the request to the scheduler's queue (disk\_scheduler.cpp,
  line 38); \<open>request_queue\<close> holds the requests scheduled so far, in order.
\<close>

record Page =
  data :: string
  page_id :: page_id_t
  pin_count :: int
  is_dirty :: bool

definition PAGE_SIZE :: nat where
  "PAGE_SIZE = 4096"

definition Page_new :: Page where
  "Page_new = \<lparr>data = replicate PAGE_SIZE (CHR 0x00), page_id = - 1, pin_count = 0, is_dirty = False\<rparr>"

datatype DiskRequest =
  DiskRequest (is_write: bool) (request_data: frame_id_t) (request_page_id: page_id_t)

text \<open>
  The pool. \<open>pages\<close> is the array \<open>new Page[pool_size_]\<close>, so \<open>pool_size\<close> is its
  length. \<open>latch\<close> tells whether the \<open>std::mutex latch_\<close> is locked.
\<close>

record BufferPoolManager =
  pages :: "Page list"
  page_table :: "page_id_t \<rightharpoonup> frame_id_t"
  free_list :: "frame_id_t list"
  free_pages :: "page_id_t list"
  next_page_id :: page_id_t
  replacer :: LRUKReplacer
  request_queue :: "DiskRequest list"
  latch :: bool

definition pool_size :: "BufferPoolManager \<Rightarrow> nat" where
  "pool_size s = length (pages s)"

definition BufferPoolManager_init :: "nat \<Rightarrow> nat \<Rightarrow> BufferPoolManager" where
  "BufferPoolManager_init n replacer_k =
     \<lparr>pages = replicate n Page_new, page_table = Map.empty, free_list = map int [0..<n],
      free_pages = [], next_page_id = 0, replacer = LRUKReplacer_init n replacer_k,
      request_queue = [], latch = False\<rparr>"

text \<open>
  \<open>std::lock_guard<std::mutex> lock(latch_)\<close>: the constructor locks the mutex and
  the destructor unlocks it when the body returns. \<open>std::mutex\<close> is not recursive:
  locking it while it is locked by the calling thread is undefined behaviour, and the call
  does not return.
\<close>

definition lock_guard ::
  "BufferPoolManager \<Rightarrow> (BufferPoolManager \<Rightarrow> fault + ('a \<times> BufferPoolManager))
     \<Rightarrow> fault + ('a \<times> BufferPoolManager)" where
  "lock_guard s body =
     (if latch s then Inl RelockedMutex
      else
        (case body (s\<lparr>latch := True\<rparr>) of
           Inl e \<Rightarrow> Inl e
         | Inr (res, s') \<Rightarrow> Inr (res, s'\<lparr>latch := False\<rparr>)))"

text \<open>\<open>pages_[f]\<close>, read and written.\<close>

definition page_at :: "BufferPoolManager \<Rightarrow> frame_id_t \<Rightarrow> fault + Page" where
  "page_at s f = (if 0 \<le> f \<and> nat f < length (pages s) then Inr (pages s ! nat f) else Inl IndexOutOfBounds)"

definition set_page :: "BufferPoolManager \<Rightarrow> frame_id_t \<Rightarrow> Page \<Rightarrow> BufferPoolManager" where
  "set_page s f pg = s\<lparr>pages := (pages s)[nat f := pg]\<rparr>"

definition Schedule :: "BufferPoolManager \<Rightarrow> DiskRequest \<Rightarrow> BufferPoolManager" where
  "Schedule s r = s\<lparr>request_queue := request_queue s @ [r]\<rparr>"

text \<open>The loop that opens \<open>NewPage\<close> and \<open>FetchPage\<close>: no page has pin count 0.\<close>

definition all_pined :: "BufferPoolManager \<Rightarrow> bool" where
  "all_pined s = list_all (\<lambda>pg. pin_count pg \<noteq> 0) (pages s)"

definition AllocatePage :: "BufferPoolManager \<Rightarrow> fault + (page_id_t \<times> BufferPoolManager)" where
  "AllocatePage s0 =
     lock_guard s0 (\<lambda>s.
       case free_pages s of
         pid # rest \<Rightarrow> Inr (pid, s\<lparr>free_pages := rest\<rparr>)
       | [] \<Rightarrow> Inr (next_page_id s, s\<lparr>next_page_id := next_page_id s + 1\<rparr>))"

definition DeallocatePage :: "BufferPoolManager \<Rightarrow> page_id_t \<Rightarrow> fault + (unit \<times> BufferPoolManager)" where
  "DeallocatePage s0 pid =
     lock_guard s0 (\<lambda>s. Inr ((), s\<lparr>free_pages := free_pages s @ [pid]\<rparr>))"

text \<open>
  \<open>NewPage\<close> returns the frame of the page it returns (\<open>None\<close> for \<open>nullptr\<close>) and
  the value it has written to \<open>*page_id\<close>, if any. Lines 61-77 secure a frame:
  \<open>Inr (None, s)\<close> there is the \<open>return nullptr\<close> of line 67.
\<close>

definition NewPage ::
  "BufferPoolManager \<Rightarrow> fault + ((frame_id_t option \<times> page_id_t option) \<times> BufferPoolManager)" where
  "NewPage s0 =
     lock_guard s0 (\<lambda>s.
       if all_pined s then Inr ((None, None), s)
       else
         (case
            (case free_list s of
               free_frame # rest \<Rightarrow> Inr (Some free_frame, s\<lparr>free_list := rest\<rparr>)
             | [] \<Rightarrow>
                 (case Evict (replacer s) of
                    Inl e \<Rightarrow> Inl e
                  | Inr (None, r) \<Rightarrow> Inr (None, s\<lparr>replacer := r\<rparr>)
                  | Inr (Some free_frame, r) \<Rightarrow>
                      (case page_at s free_frame of
                         Inl e \<Rightarrow> Inl e
                       | Inr victim \<Rightarrow>
                           (let s1 = s\<lparr>replacer := r\<rparr>;
                                s2 = (if is_dirty victim
                                      then set_page
                                             (Schedule s1 (DiskRequest True free_frame (page_id victim)))
                                             free_frame (victim\<lparr>is_dirty := False\<rparr>)
                                      else s1)
                            in Inr (Some free_frame,
                                    s2\<lparr>free_pages := free_pages s2 @ [page_id victim]\<rparr>)))))
          of
            Inl e \<Rightarrow> Inl e
          | Inr (None, s3) \<Rightarrow> Inr ((None, None), s3)
          | Inr (Some free_frame, s3) \<Rightarrow>
              (case AllocatePage s3 of
                 Inl e \<Rightarrow> Inl e
               | Inr (pid, s4) \<Rightarrow>
                   if size_t_cast pid \<ge> pool_size s4 then Inr ((None, Some pid), s4)
                   else
                     (case page_at s4 free_frame of
                        Inl e \<Rightarrow> Inl e
                      | Inr pg \<Rightarrow>
                          (let s5 = (if page_table s4 pid \<noteq> None
                                     then Schedule s4 (DiskRequest False free_frame pid)
                                     else s4);
                               s6 = set_page s5 free_frame
                                      (pg\<lparr>page_id := pid, pin_count := 1, is_dirty := False\<rparr>)
                           in case SetEvictable (replacer s6) free_frame False of
                                Inl e \<Rightarrow> Inl e
                              | Inr r \<Rightarrow>
                                  Inr ((Some free_frame, Some pid),
                                       s6\<lparr>replacer := r,
                                          page_table := (page_table s6)(pid \<mapsto> free_frame)\<rparr>))))))"

text \<open>
  \<open>FetchPage\<close> returns the frame of the page it returns. Lines 136-145, which follow
  the securing of a frame on both of its branches, are \<open>FetchPage_load\<close>.
\<close>

definition FetchPage_load ::
  "BufferPoolManager \<Rightarrow> frame_id_t \<Rightarrow> page_id_t \<Rightarrow> fault + (frame_id_t option \<times> BufferPoolManager)" where
  "FetchPage_load s free_frame pid =
     (case page_at s free_frame of
        Inl e \<Rightarrow> Inl e
      | Inr pg \<Rightarrow>
          (let s1 = Schedule s (DiskRequest False free_frame pid);
               s2 = set_page s1 free_frame
                      (pg\<lparr>page_id := pid, pin_count := pin_count pg + 1, is_dirty := False\<rparr>)
           in case SetEvictable (replacer s2) free_frame False of
                Inl e \<Rightarrow> Inl e
              | Inr r \<Rightarrow> Inr (Some free_frame, s2\<lparr>replacer := r\<rparr>)))"

definition FetchPage ::
  "BufferPoolManager \<Rightarrow> page_id_t \<Rightarrow> fault + (frame_id_t option \<times> BufferPoolManager)" where
  "FetchPage s0 pid =
     lock_guard s0 (\<lambda>s.
       if all_pined s then Inr (None, s)
       else
         (case page_table s pid of
            Some frame_id \<Rightarrow>
              (case page_at s frame_id of
                 Inl e \<Rightarrow> Inl e
               | Inr pg \<Rightarrow>
                   (let s1 = set_page s frame_id (pg\<lparr>pin_count := pin_count pg + 1\<rparr>)
                    in case SetEvictable (replacer s1) frame_id False of
                         Inl e \<Rightarrow> Inl e
                       | Inr r \<Rightarrow> Inr (Some frame_id, s1\<lparr>replacer := r\<rparr>)))
          | None \<Rightarrow>
              (case free_list s of
                 free_frame # rest \<Rightarrow> FetchPage_load (s\<lparr>free_list := rest\<rparr>) free_frame pid
               | [] \<Rightarrow>
                   (case Evict (replacer s) of
                      Inl e \<Rightarrow> Inl e
                    | Inr (None, r) \<Rightarrow> Inr (None, s\<lparr>replacer := r\<rparr>)
                    | Inr (Some free_frame, r) \<Rightarrow>
                        (case page_at s free_frame of
                           Inl e \<Rightarrow> Inl e
                         | Inr victim \<Rightarrow>
                             (let s1 = s\<lparr>replacer := r\<rparr>;
                                  s2 = (if is_dirty victim
                                        then set_page s1 free_frame (victim\<lparr>is_dirty := False\<rparr>)
                                        else s1)
                              in FetchPage_load s2 free_frame pid))))))"

definition UnpinPage ::
  "BufferPoolManager \<Rightarrow> page_id_t \<Rightarrow> bool \<Rightarrow> fault + (bool \<times> BufferPoolManager)" where
  "UnpinPage s0 pid dirty =
     lock_guard s0 (\<lambda>s.
       case page_table s pid of
         None \<Rightarrow> Inr (False, s)
       | Some frame_id \<Rightarrow>
           (case page_at s frame_id of
              Inl e \<Rightarrow> Inl e
            | Inr pg \<Rightarrow>
                if pin_count pg \<le> 0 then Inr (False, s)
                else
                  (let pg1 = pg\<lparr>pin_count := pin_count pg - 1\<rparr>;
                       pg2 = (if dirty then pg1\<lparr>is_dirty := True\<rparr> else pg1);
                       s1 = set_page s frame_id pg2
                   in if pin_count pg2 = 0 then
                        (case SetEvictable (replacer s1) frame_id True of
                           Inl e \<Rightarrow> Inl e
                         | Inr r \<Rightarrow> Inr (True, s1\<lparr>replacer := r\<rparr>))
                      else Inr (True, s1))))"

definition FlushPage :: "BufferPoolManager \<Rightarrow> page_id_t \<Rightarrow> fault + (bool \<times> BufferPoolManager)" where
  "FlushPage s0 pid =
     lock_guard s0 (\<lambda>s.
       case page_table s pid of
         None \<Rightarrow> Inr (False, s)
       | Some frame_id \<Rightarrow>
           (case page_at s frame_id of
              Inl e \<Rightarrow> Inl e
            | Inr pg \<Rightarrow>
                (let s1 = (if is_dirty pg
                           then Schedule (set_page s frame_id (pg\<lparr>is_dirty := False\<rparr>))
                                  (DiskRequest True frame_id (page_id pg))
                           else s)
                 in case DeallocatePage s1 pid of
                      Inl e \<Rightarrow> Inl e
                    | Inr (u, s2) \<Rightarrow> Inr (True, s2))))"

section \<open>Page guards (src/storage/page/page\_guard.cpp)\<close>

text \<open>
  Modelled from the spec: \<open>storage/page/page_guard.h\<close> is not among the sources. A basic
  guard owns \<open>(pool, frame pointer, is_dirty)\<close> and is empty when default constructed.
  There is one pool, so a non-null \<open>BufferPoolManager *\<close> is \<open>Some ThePool\<close>; a
  \<open>Page *\<close> points into \<open>pages\<close> and is the frame's index. The member
  \<open>is_dirty_\<close> of a guard is \<open>guard_is_dirty\<close>.
\<close>

datatype bpm_ref = ThePool

record BasicPageGuard =
  bpm :: "bpm_ref option"
  page :: "frame_id_t option"
  guard_is_dirty :: bool

definition BasicPageGuard_new :: BasicPageGuard where
  "BasicPageGuard_new = \<lparr>bpm = None, page = None, guard_is_dirty = False\<rparr>"

text \<open>The move constructor (lines 6-11): the new guard and what is left of \<open>that\<close>.\<close>

definition move_construct :: "BasicPageGuard \<Rightarrow> BasicPageGuard \<times> BasicPageGuard" where
  "move_construct that =
     (\<lparr>bpm = bpm that, page = page that, guard_is_dirty = guard_is_dirty that\<rparr>,
      that\<lparr>bpm := None, page := None, guard_is_dirty := False\<rparr>)"

definition Drop ::
  "BasicPageGuard \<Rightarrow> BufferPoolManager \<Rightarrow> fault + (BasicPageGuard \<times> BufferPoolManager)" where
  "Drop g s =
     (case (page g, bpm g) of
        (Some f, Some b) \<Rightarrow>
          (case page_at s f of
             Inl e \<Rightarrow> Inl e
           | Inr pg \<Rightarrow>
               (case UnpinPage s (page_id pg) (guard_is_dirty g) of
                  Inl e \<Rightarrow> Inl e
                | Inr (res, s') \<Rightarrow> Inr (g\<lparr>page := None\<rparr>, s')))
      | _ \<Rightarrow> Inr (g, s))"

text \<open>
  Move assignment (lines 20-29) between two different guard objects (\<open>this != &that\<close>):
  the two guards after the assignment, \<open>this\<close> first.
\<close>

definition move_assign ::
  "BasicPageGuard \<Rightarrow> BasicPageGuard \<Rightarrow> BufferPoolManager
     \<Rightarrow> fault + ((BasicPageGuard \<times> BasicPageGuard) \<times> BufferPoolManager)" where
  "move_assign this that s =
     (case Drop this s of
        Inl e \<Rightarrow> Inl e
      | Inr (this1, s') \<Rightarrow>
          (let this2 = this1\<lparr>bpm := bpm that\<rparr>;
               this3 = this2\<lparr>page := page that\<rparr>;
               this4 = this3\<lparr>guard_is_dirty := guard_is_dirty that\<rparr>;
               this5 = this4\<lparr>bpm := None\<rparr>
           in Inr ((this5, that), s')))"

section \<open>Notions and states used in the statements\<close>

text \<open>The recorded accesses of a frame, newest first; empty for a frame without a node.\<close>

definition history_in :: "(frame_id_t \<rightharpoonup> LRUKNode) \<Rightarrow> frame_id_t \<Rightarrow> nat list" where
  "history_in ns f = (case ns f of None \<Rightarrow> [] | Some n \<Rightarrow> history n)"

definition history_of :: "LRUKReplacer \<Rightarrow> frame_id_t \<Rightarrow> nat list" where
  "history_of r f = history_in (node_store r) f"

text \<open>
  A replacer for two frames with \<open>k = 3\<close> after \<open>RecordAccess(0)\<close>,
  \<open>RecordAccess(1)\<close>, \<open>RecordAccess(0)\<close>, \<open>SetEvictable(0, true)\<close>,
  \<open>SetEvictable(1, true)\<close>: frame 0 was accessed at times 0 and 2, frame 1 at time 1.
\<close>

definition replacer_k3 :: LRUKReplacer where
  "replacer_k3 =
     \<lparr>node_store = [0 \<mapsto> \<lparr>history = [2, 0], is_evictable = True\<rparr>,
                     1 \<mapsto> \<lparr>history = [1], is_evictable = True\<rparr>],
      evictable_list = [0, 1], current_timestamp = 3, curr_size = 2, replacer_size = 2, lru_k = 3\<rparr>"

text \<open>
  A pool of one frame (\<open>k = 2\<close>) that holds page 0, pinned once and clean, with the
  page table entry and the one recorded access that section 4.3 of the specification
  prescribes for a page just created.
\<close>

definition pool_pinned :: BufferPoolManager where
  "pool_pinned =
     \<lparr>pages = [\<lparr>data = ''hello'', page_id = 0, pin_count = 1, is_dirty = False\<rparr>],
      page_table = [0 \<mapsto> 0], free_list = [], free_pages = [], next_page_id = 1,
      replacer = \<lparr>node_store = [0 \<mapsto> \<lparr>history = [0], is_evictable = False\<rparr>],
                   evictable_list = [], current_timestamp = 1, curr_size = 0,
                   replacer_size = 1, lru_k = 2\<rparr>,
      request_queue = [], latch = False\<rparr>"

text \<open>The same pool after \<open>UnpinPage(0, true)\<close>: page 0 is dirty, unpinned and evictable.\<close>

definition pool_dirty :: BufferPoolManager where
  "pool_dirty =
     \<lparr>pages = [\<lparr>data = ''hello'', page_id = 0, pin_count = 0, is_dirty = True\<rparr>],
      page_table = [0 \<mapsto> 0], free_list = [], free_pages = [], next_page_id = 1,
      replacer = \<lparr>node_store = [0 \<mapsto> \<lparr>history = [0], is_evictable = True\<rparr>],
                   evictable_list = [0], current_timestamp = 1, curr_size = 1,
                   replacer_size = 1, lru_k = 2\<rparr>,
      request_queue = [], latch = False\<rparr>"

text \<open>A guard that holds the page in frame 0 of the pool and has marked it dirty.\<close>

definition guard_held :: BasicPageGuard where
  "guard_held = \<lparr>bpm = Some ThePool, page = Some 0, guard_is_dirty = True\<rparr>"

text \<open>
  The tries of \<open>Trie().Put("a", 1).Put("", 2)\<close> and of its \<open>Remove("a")\<close>, with
  values of type \<open>uint32_t\<close>.
\<close>

definition trie_a :: Trie where
  "trie_a = Trie (Some (TrieNode [(CHR ''a'', TrieNode [] True (Some (V_uint32 1)))] False None))"

definition trie_a_root :: Trie where
  "trie_a_root =
     Trie (Some (TrieNode [(CHR ''a'', TrieNode [] True (Some (V_uint32 1)))] True (Some (V_uint32 2))))"

definition trie_root_only :: Trie where
  "trie_root_only = Trie (Some (TrieNode [] True (Some (V_uint32 2))))"

text \<open>
  A value is stored under a key when the walk from the root along the key ends in a node
  whose \<open>is_value_node\<close> is set. \<open>stack_path\<close> reads the characters of
  \<open>stacks\<close> from the root down.
\<close>

definition has_value :: "Trie \<Rightarrow> string \<Rightarrow> bool" where
  "has_value t key =
     (case Get_walk (root t) key of
        Inr (Some (Some x)) \<Rightarrow> is_value_node x
      | _ \<Rightarrow> False)"

fun stack_path :: "(char \<times> TrieNode) list \<Rightarrow> string" where
  "stack_path [] = []"
| "stack_path ((ch, parent) # stacks) = stack_path stacks @ [ch]"

section \<open>The LRU-K replacer: which frame \<open>Evict\<close> returns\<close>

lemma map_insert_keys: "fst ` set (map_insert kv m) = insert (fst kv) (fst ` set m)"
  by (induction m) auto

lemma map_insert_subset: "set (map_insert kv m) \<subseteq> insert kv (set m)"
  by (induction m) auto

lemma map_insert_sorted: "sorted (map fst m) \<Longrightarrow> sorted (map fst (map_insert kv m))"
  by (induction m) (auto simp: map_insert_keys[simplified] dest!: subsetD[OF map_insert_subset])

lemma node_at_present: "ns f = Some n \<Longrightarrow> node_at ns f = (n, ns)"
  by (simp add: node_at_def)

text \<open>
  The first loop of \<open>Evict\<close>, on frames that all have a recorded access: it ends, leaves
  the node store as it was, and the map it has built holds exactly the newest timestamps of
  the frames with fewer than \<open>k\<close> accesses, each with the position of its frame.
\<close>

lemma less_k_scan_recorded:
  assumes "\<forall>f\<in>set fs. history_in ns f \<noteq> []"
  shows "\<exists>m'. less_k_scan k i fs ns m = Inr (m', ns) \<and>
           fst ` set m' = fst ` set m \<union> {hd (history_in ns f) | f. f \<in> set fs \<and> length (history_in ns f) < k} \<and>
           (\<forall>(t, p)\<in>set m'. (t, p) \<in> set m \<or>
               (i \<le> p \<and> p < i + length fs \<and> length (history_in ns (fs ! (p - i))) < k \<and>
                hd (history_in ns (fs ! (p - i))) = t)) \<and>
           (sorted (map fst m) \<longrightarrow> sorted (map fst m'))"
  using assms
proof (induction fs arbitrary: i m)
  case Nil
  then show ?case by auto
next
  case (Cons f fs)
  from Cons.prems obtain n where n: "ns f = Some n" and hn: "history n \<noteq> []"
    by (auto simp: history_in_def split: option.splits)
  have hin: "history_in ns f = history n" using n by (simp add: history_in_def)
  have rest: "\<forall>f\<in>set fs. history_in ns f \<noteq> []" using Cons.prems by simp
  show ?case
  proof (cases "length (history n) < k")
    case False
    from Cons.IH[OF rest, of "Suc i" m] obtain m' where
      m': "less_k_scan k (Suc i) fs ns m = Inr (m', ns)"
      and keys: "fst ` set m' = fst ` set m \<union> {hd (history_in ns f) | f. f \<in> set fs \<and> length (history_in ns f) < k}"
      and pos: "\<forall>(t, p)\<in>set m'. (t, p) \<in> set m \<or>
               (Suc i \<le> p \<and> p < Suc i + length fs \<and> length (history_in ns (fs ! (p - Suc i))) < k \<and>
                hd (history_in ns (fs ! (p - Suc i))) = t)"
      and srt: "sorted (map fst m) \<longrightarrow> sorted (map fst m')"
      by blast
    have 1: "less_k_scan k i (f # fs) ns m = Inr (m', ns)"
      using False n m' by (simp add: node_at_present)
    have 2: "fst ` set m' = fst ` set m \<union> {hd (history_in ns g) | g. g \<in> set (f # fs) \<and> length (history_in ns g) < k}"
      using keys False hin by auto
    have 3: "\<forall>(t, p)\<in>set m'. (t, p) \<in> set m \<or>
               (i \<le> p \<and> p < i + length (f # fs) \<and> length (history_in ns ((f # fs) ! (p - i))) < k \<and>
                hd (history_in ns ((f # fs) ! (p - i))) = t)"
    proof (clarify)
      fix t p
      assume tp: "(t, p) \<in> set m'"
        and notin: "\<not> (i \<le> p \<and> p < i + length (f # fs) \<and>
                       length (history_in ns ((f # fs) ! (p - i))) < k \<and>
                       hd (history_in ns ((f # fs) ! (p - i))) = t)"
      show "(t, p) \<in> set m"
      proof (rule ccontr)
        assume "(t, p) \<notin> set m"
        with pos tp have a: "Suc i \<le> p" "p < Suc i + length fs"
          "length (history_in ns (fs ! (p - Suc i))) < k"
          "hd (history_in ns (fs ! (p - Suc i))) = t" by auto
        from a(1) have "p - i = Suc (p - Suc i)" by simp
        with a notin show False by simp
      qed
    qed
    from 1 2 3 srt show ?thesis by blast
  next
    case True
    from hn obtain front older where h: "history n = front # older" by (cases "history n") auto
    let ?m = "map_insert (front, i) m"
    from Cons.IH[OF rest, of "Suc i" ?m] obtain m' where
      m': "less_k_scan k (Suc i) fs ns ?m = Inr (m', ns)"
      and keys: "fst ` set m' = fst ` set ?m \<union> {hd (history_in ns f) | f. f \<in> set fs \<and> length (history_in ns f) < k}"
      and pos: "\<forall>(t, p)\<in>set m'. (t, p) \<in> set ?m \<or>
               (Suc i \<le> p \<and> p < Suc i + length fs \<and> length (history_in ns (fs ! (p - Suc i))) < k \<and>
                hd (history_in ns (fs ! (p - Suc i))) = t)"
      and srt: "sorted (map fst ?m) \<longrightarrow> sorted (map fst m')"
      by blast
    have 1: "less_k_scan k i (f # fs) ns m = Inr (m', ns)"
      using True n m' h by (simp add: node_at_present)
    have 2: "fst ` set m' = fst ` set m \<union> {hd (history_in ns g) | g. g \<in> set (f # fs) \<and> length (history_in ns g) < k}"
    proof -
      have "{hd (history_in ns g) | g. g \<in> set (f # fs) \<and> length (history_in ns g) < k} =
            insert front {hd (history_in ns g) | g. g \<in> set fs \<and> length (history_in ns g) < k}"
        (is "?L = ?R")
      proof
        show "?L \<subseteq> ?R" using hin h by auto
        have "front \<in> ?L" using hin h True by (auto intro!: exI[of _ f])
        then show "?R \<subseteq> ?L" by auto
      qed
      with keys show ?thesis by (simp add: map_insert_keys)
    qed
    have 3: "\<forall>(t, p)\<in>set m'. (t, p) \<in> set m \<or>
               (i \<le> p \<and> p < i + length (f # fs) \<and> length (history_in ns ((f # fs) ! (p - i))) < k \<and>
                hd (history_in ns ((f # fs) ! (p - i))) = t)"
    proof (clarify)
      fix t p
      assume tp: "(t, p) \<in> set m'"
        and notin: "\<not> (i \<le> p \<and> p < i + length (f # fs) \<and>
                       length (history_in ns ((f # fs) ! (p - i))) < k \<and>
                       hd (history_in ns ((f # fs) ! (p - i))) = t)"
      show "(t, p) \<in> set m"
      proof (rule ccontr)
        assume nm: "(t, p) \<notin> set m"
        from pos tp consider (new) "(t, p) \<in> set ?m"
          | (later) "Suc i \<le> p" "p < Suc i + length fs"
              "length (history_in ns (fs ! (p - Suc i))) < k"
              "hd (history_in ns (fs ! (p - Suc i))) = t" by auto
        then show False
        proof cases
          case new
          with nm map_insert_subset[of "(front, i)" m] have "(t, p) = (front, i)" by auto
          with notin True hin h show False by simp
        next
          case later
          from later(1) have "p - i = Suc (p - Suc i)" by simp
          with later notin show False by simp
        qed
      qed
    qed
    from 1 2 3 srt map_insert_sorted show ?thesis by blast
  qed
qed

lemma size_t_dec_2: "size_t_dec 2 = 1"
  by (simp add: size_t_dec_def)

text \<open>The state \<open>replacer_k3\<close> is what the five calls named above build.\<close>

lemma replacer_k3_built:
  "(case RecordAccess (LRUKReplacer_init 2 3) 0 of Inl e \<Rightarrow> Inl e | Inr r1 \<Rightarrow>
    case RecordAccess r1 1 of Inl e \<Rightarrow> Inl e | Inr r2 \<Rightarrow>
    case RecordAccess r2 0 of Inl e \<Rightarrow> Inl e | Inr r3 \<Rightarrow>
    case SetEvictable r3 0 True of Inl e \<Rightarrow> Inl e | Inr r4 \<Rightarrow>
    SetEvictable r4 1 True) = Inr replacer_k3"
  apply (simp add: RecordAccess_def SetEvictable_def LRUKReplacer_init_def size_t_cast_def
      node_at_def default_node_def size_t_inc_def replacer_k3_def)
  apply (simp add: numeral_2_eq_2 numeral_3_eq_3)
  done

text \<open>
  C1, as the specification states it, fails. In \<open>replacer_k3\<close> both frames are evictable
  and have fewer than \<open>k = 3\<close> recorded accesses, each has at least one, and the earliest
  recorded access of frame 0 (time 0) is older than that of frame 1 (time 1); \<open>Evict\<close>
  returns frame 1.
\<close>

theorem Evict_earliest_access_counterexample:
  "Evict replacer_k3 =
     Inr (Some 1, replacer_k3\<lparr>node_store := (node_store replacer_k3)(1 := None),
                              evictable_list := [0], curr_size := 1\<rparr>) \<and>
   evictable_list replacer_k3 = [0, 1] \<and>
   history_of replacer_k3 0 = [2, 0] \<and> history_of replacer_k3 1 = [1] \<and>
   length (history_of replacer_k3 0) < lru_k replacer_k3 \<and>
   length (history_of replacer_k3 1) < lru_k replacer_k3 \<and>
   last (history_of replacer_k3 0) < last (history_of replacer_k3 1)"
  by (simp add: Evict_def replacer_k3_def node_at_def list_erase_def size_t_dec_2
      history_of_def history_in_def)

text \<open>
  C1, amended: whenever \<open>Evict\<close> is called, every evictable frame has at least one
  recorded access and at least one evictable frame has fewer than \<open>k\<close> recorded accesses,
  \<open>Evict\<close> returns a victim; the victim is an evictable frame with fewer than \<open>k\<close>
  accesses, and among those frames it is one whose most recent recorded access (the front of
  its history) is smallest. Its node is erased from the node store.
\<close>

theorem Evict_fewer_than_k_newest:
  assumes recorded: "\<forall>f\<in>set (evictable_list r). history_of r f \<noteq> []"
      and some: "\<exists>f\<in>set (evictable_list r). length (history_of r f) < lru_k r"
  shows "\<exists>v r'. Evict r = Inr (Some v, r') \<and> v \<in> set (evictable_list r) \<and>
           length (history_of r v) < lru_k r \<and>
           (\<forall>f\<in>set (evictable_list r). length (history_of r f) < lru_k r \<longrightarrow>
               hd (history_of r v) \<le> hd (history_of r f)) \<and>
           node_store r' v = None"
proof -
  let ?fs = "evictable_list r" and ?ns = "node_store r" and ?k = "lru_k r"
  from some obtain first rest where fs: "?fs = first # rest" by (cases ?fs) auto
  from recorded have "\<forall>f\<in>set ?fs. history_in ?ns f \<noteq> []" by (simp add: history_of_def)
  from less_k_scan_recorded[OF this, of ?k 0 "[]"] obtain m' where
    scan: "less_k_scan ?k 0 ?fs ?ns [] = Inr (m', ?ns)"
    and keys: "fst ` set m' = {hd (history_in ?ns f) | f. f \<in> set ?fs \<and> length (history_in ?ns f) < ?k}"
    and pos: "\<forall>(t, p)\<in>set m'. p < length ?fs \<and> length (history_in ?ns (?fs ! p)) < ?k \<and>
                hd (history_in ?ns (?fs ! p)) = t"
    and srt: "sorted (map fst m')"
    by auto
  from some keys have "set m' \<noteq> {}" by (auto simp: history_of_def)
  then obtain t p more where m': "m' = (t, p) # more" by (cases m') auto
  let ?v = "?fs ! p"
  from pos m' have p: "p < length ?fs" and short: "length (history_in ?ns ?v) < ?k"
    and t: "hd (history_in ?ns ?v) = t" by auto
  have least: "t \<le> x" if "x \<in> fst ` set m'" for x
    using srt that m' by auto
  have ev: "Evict r = Inr (Some ?v, r\<lparr>node_store := ?ns(?v := None),
                            evictable_list := list_erase ?fs p,
                            curr_size := size_t_dec (curr_size r)\<rparr>)"
    using scan m' fs by (simp add: Evict_def Let_def)
  have min: "\<forall>f\<in>set ?fs. length (history_of r f) < ?k \<longrightarrow> hd (history_of r ?v) \<le> hd (history_of r f)"
  proof (intro ballI impI)
    fix f assume "f \<in> set ?fs" "length (history_of r f) < ?k"
    then have "hd (history_in ?ns f) \<in> fst ` set m'" using keys by (auto simp: history_of_def)
    from least[OF this] t show "hd (history_of r ?v) \<le> hd (history_of r f)"
      by (simp add: history_of_def)
  qed
  from ev p short min show ?thesis by (simp add: history_of_def)
qed

text \<open>
  The amended C1 at \<open>replacer_k3\<close>: its two hypotheses hold there, and the victim's
  newest access is no later than that of frame 0 and of frame 1.
\<close>

theorem Evict_fewer_than_k_newest_witness:
  "history_of replacer_k3 0 \<noteq> [] \<and> history_of replacer_k3 1 \<noteq> [] \<and>
   length (history_of replacer_k3 1) < lru_k replacer_k3 \<and>
   (\<exists>v r'. Evict replacer_k3 = Inr (Some v, r') \<and> v \<in> set (evictable_list replacer_k3) \<and>
      hd (history_of replacer_k3 v) \<le> hd (history_of replacer_k3 0) \<and>
      hd (history_of replacer_k3 v) \<le> hd (history_of replacer_k3 1) \<and>
      node_store r' v = None)"
proof -
  have h0: "history_of replacer_k3 0 = [2, 0]" and h1: "history_of replacer_k3 1 = [1]"
    and k: "lru_k replacer_k3 = 3" and l: "evictable_list replacer_k3 = [0, 1]"
    by (simp_all add: replacer_k3_def history_of_def history_in_def)
  have a: "\<forall>f\<in>set (evictable_list replacer_k3). history_of replacer_k3 f \<noteq> []"
    using h0 h1 l by simp
  have b: "\<exists>f\<in>set (evictable_list replacer_k3). length (history_of replacer_k3 f) < lru_k replacer_k3"
    using h1 k l by simp
  from Evict_fewer_than_k_newest[OF a b] obtain v r' where
    "Evict replacer_k3 = Inr (Some v, r')" "v \<in> set (evictable_list replacer_k3)"
    "\<forall>f\<in>set (evictable_list replacer_k3). length (history_of replacer_k3 f) < lru_k replacer_k3 \<longrightarrow>
        hd (history_of replacer_k3 v) \<le> hd (history_of replacer_k3 f)"
    "node_store r' v = None" by blast
  then show ?thesis using h0 h1 k l by auto
qed

section \<open>The buffer pool manager\<close>

subsection \<open>The latch\<close>

lemma lock_guard_held: "latch s \<Longrightarrow> lock_guard s body = Inl RelockedMutex"
  by (simp add: lock_guard_def)

lemma AllocatePage_held: "latch s \<Longrightarrow> AllocatePage s = Inl RelockedMutex"
  by (simp add: AllocatePage_def lock_guard_held)

lemma DeallocatePage_held: "latch s \<Longrightarrow> DeallocatePage s pid = Inl RelockedMutex"
  by (simp add: DeallocatePage_def lock_guard_held)

lemma latch_set_page [simp]: "latch (set_page s f pg) = latch s"
  by (simp add: set_page_def)

lemma latch_Schedule [simp]: "latch (Schedule s r) = latch s"
  by (simp add: Schedule_def)

lemma latch_reset: "\<not> latch s \<Longrightarrow> s\<lparr>latch := False\<rparr> = s"
  by (cases s) simp

text \<open>
  \<open>NewPage\<close> holds the latch when it calls \<open>AllocatePage\<close>, and \<open>FlushPage\<close> holds
  it when it calls \<open>DeallocatePage\<close>; both callees lock the latch again. So in no state
  does \<open>NewPage\<close> return a page, and in no state does \<open>FlushPage\<close> return true.
\<close>

lemma NewPage_never_returns_page: "NewPage s \<noteq> Inr ((Some f, pid), s')"
  by (auto simp: NewPage_def lock_guard_def AllocatePage_held Let_def
      split: list.splits sum.splits option.splits prod.splits if_splits)

lemma FlushPage_never_true: "FlushPage s pid \<noteq> Inr (True, s')"
  by (auto simp: FlushPage_def lock_guard_def DeallocatePage_held Let_def
      split: sum.splits option.splits prod.splits if_splits)

subsection \<open>Evaluation at the example states\<close>

lemma size_t_inc_0: "size_t_inc 0 = 1"
  by (simp add: size_t_inc_def)

lemma size_t_dec_1: "size_t_dec (Suc 0) = 0"
  by (simp add: size_t_dec_def)

lemma UnpinPage_pool_pinned: "UnpinPage pool_pinned 0 True = Inr (True, pool_dirty)"
  by (simp add: UnpinPage_def lock_guard_def pool_pinned_def pool_dirty_def page_at_def
      set_page_def SetEvictable_def size_t_cast_def node_at_def size_t_inc_0)

lemma FetchPage_pool_dirty_miss:
  "FetchPage pool_dirty 1 =
     Inr (Some 0,
          pool_dirty\<lparr>pages := [\<lparr>data = ''hello'', page_id = 1, pin_count = 1, is_dirty = False\<rparr>],
                     replacer := \<lparr>node_store = [0 \<mapsto> \<lparr>history = [], is_evictable = False\<rparr>],
                                   evictable_list = [], current_timestamp = 1, curr_size = 0,
                                   replacer_size = 1, lru_k = 2\<rparr>,
                     request_queue := [DiskRequest False 0 1]\<rparr>)"
  by (simp add: FetchPage_def FetchPage_load_def lock_guard_def pool_dirty_def page_at_def
      set_page_def SetEvictable_def size_t_cast_def node_at_def size_t_dec_1 all_pined_def
      Evict_def list_erase_def Schedule_def default_node_def)

lemma FetchPage_pool_dirty_hit:
  "FetchPage pool_dirty 0 =
     Inr (Some 0,
          pool_dirty\<lparr>pages := [\<lparr>data = ''hello'', page_id = 0, pin_count = 1, is_dirty = True\<rparr>],
                     replacer := \<lparr>node_store = [0 \<mapsto> \<lparr>history = [0], is_evictable = False\<rparr>],
                                   evictable_list = [], current_timestamp = 1, curr_size = 0,
                                   replacer_size = 1, lru_k = 2\<rparr>\<rparr>)"
  by (simp add: FetchPage_def lock_guard_def pool_dirty_def page_at_def
      set_page_def SetEvictable_def size_t_cast_def node_at_def size_t_dec_1 all_pined_def)

lemma FetchPage_fresh_pool:
  "FetchPage (BufferPoolManager_init 1 2) 0 =
     Inr (Some 0,
          (BufferPoolManager_init 1 2)
             \<lparr>pages := [Page_new\<lparr>page_id := 0, pin_count := 1\<rparr>], free_list := [],
              replacer := (LRUKReplacer_init 1 2)\<lparr>node_store := [0 \<mapsto> default_node]\<rparr>,
              request_queue := [DiskRequest False 0 0]\<rparr>)"
  by (simp add: FetchPage_def FetchPage_load_def lock_guard_def BufferPoolManager_init_def
      page_at_def set_page_def SetEvictable_def size_t_cast_def node_at_def all_pined_def
      Page_new_def LRUKReplacer_init_def Schedule_def default_node_def)

text \<open>
  C2 (the code departs from it). In \<open>pool_dirty\<close> the free list is empty and frame 0
  holds page 0, dirty and evictable. \<open>FetchPage(1)\<close> secures frame 0 by evicting it: the
  dirty flag is cleared, but the only request scheduled is the read of page 1 (no write of
  page 0), and the page table is left as it was, so it still maps page 0 to frame 0, which
  now holds page 1. \<open>NewPage\<close> in the same state does not return: it locks the latch
  again in \<open>AllocatePage\<close>.
\<close>

theorem FetchPage_evicts_dirty_without_write:
  "is_dirty (pages pool_dirty ! 0) \<and> page_id (pages pool_dirty ! 0) = 0 \<and>
   free_list pool_dirty = [] \<and> request_queue pool_dirty = [] \<and>
   (\<exists>s'. FetchPage pool_dirty 1 = Inr (Some 0, s') \<and>
      request_queue s' = [DiskRequest False 0 1] \<and>
      \<not> is_dirty (pages s' ! 0) \<and> page_id (pages s' ! 0) = 1 \<and>
      page_table s' = page_table pool_dirty \<and> page_table s' 0 = Some 0 \<and>
      page_table s' 1 = None) \<and>
   NewPage pool_dirty = Inl RelockedMutex"
proof -
  have "NewPage pool_dirty = Inl RelockedMutex"
    by (simp add: NewPage_def lock_guard_def pool_dirty_def all_pined_def AllocatePage_def
        Evict_def node_at_def page_at_def list_erase_def Schedule_def set_page_def)
  then show ?thesis
    by (simp add: FetchPage_pool_dirty_miss) (simp add: pool_dirty_def)
qed

text \<open>
  C3 (the code departs from it). \<open>FetchPage(0)\<close> on a new pool of one frame takes the
  miss path and succeeds: frame 0 gets page id 0, pin count 1 and is not evictable, but the
  page table stays empty and no access is recorded (the history of frame 0 is empty and the
  replacer's clock is still 0). \<open>FetchPage(0)\<close> on \<open>pool_dirty\<close> takes the
  resident path and succeeds: the pin count goes from 0 to 1 and the frame is no longer
  evictable, but the history of frame 0 and the replacer's clock are as before.
\<close>

theorem FetchPage_records_no_access:
  "(\<exists>s'. FetchPage (BufferPoolManager_init 1 2) 0 = Inr (Some 0, s') \<and>
      page_id (pages s' ! 0) = 0 \<and> pin_count (pages s' ! 0) = 1 \<and>
      evictable_list (replacer s') = [] \<and>
      page_table s' 0 = None \<and>
      history_of (replacer s') 0 = [] \<and> current_timestamp (replacer s') = 0) \<and>
   page_table pool_dirty 0 = Some 0 \<and> history_of (replacer pool_dirty) 0 = [0] \<and>
   current_timestamp (replacer pool_dirty) = 1 \<and>
   (\<exists>s'. FetchPage pool_dirty 0 = Inr (Some 0, s') \<and>
      page_id (pages s' ! 0) = 0 \<and> pin_count (pages s' ! 0) = 1 \<and>
      evictable_list (replacer s') = [] \<and>
      page_table s' 0 = Some 0 \<and>
      history_of (replacer s') 0 = [0] \<and> current_timestamp (replacer s') = 1)"
  unfolding FetchPage_fresh_pool FetchPage_pool_dirty_hit
  by (simp add: history_of_def history_in_def pool_dirty_def BufferPoolManager_init_def
      LRUKReplacer_init_def default_node_def Page_new_def)

text \<open>
  No call of \<open>FetchPage\<close> that returns changes the page table or advances the
  replacer's clock (\<open>RecordAccess\<close> is the only operation that advances it).
\<close>

lemma Evict_timestamp: "Evict r = Inr (v, r') \<Longrightarrow> current_timestamp r' = current_timestamp r"
  by (auto simp: Evict_def Let_def split: list.splits sum.splits prod.splits)

lemma SetEvictable_timestamp:
  "SetEvictable r f b = Inr r' \<Longrightarrow> current_timestamp r' = current_timestamp r"
  by (auto simp: SetEvictable_def Let_def split: if_splits prod.splits)

lemma FetchPage_load_keeps:
  "FetchPage_load s f pid = Inr (res, s') \<Longrightarrow>
     page_table s' = page_table s \<and>
     current_timestamp (replacer s') = current_timestamp (replacer s)"
  by (auto simp: FetchPage_load_def Let_def set_page_def Schedule_def
      split: sum.splits dest: SetEvictable_timestamp)

lemma FetchPage_keeps_table_and_clock:
  assumes "FetchPage s pid = Inr (res, s')"
  shows "page_table s' = page_table s \<and>
         current_timestamp (replacer s') = current_timestamp (replacer s)"
  using assms
  by (auto simp: FetchPage_def lock_guard_def Let_def set_page_def
      split: sum.splits option.splits prod.splits if_splits list.splits
      dest!: SetEvictable_timestamp Evict_timestamp FetchPage_load_keeps)

text \<open>
  No call of \<open>FetchPage\<close> that returns schedules a write: the queue is as before, or
  one read of the requested page longer.
\<close>

lemma FetchPage_load_queue:
  "FetchPage_load s f pid = Inr (res, s') \<Longrightarrow>
     request_queue s' = request_queue s @ [DiskRequest False f pid]"
  by (auto simp: FetchPage_load_def Let_def set_page_def Schedule_def split: sum.splits)

lemma FetchPage_schedules_no_write:
  assumes "FetchPage s pid = Inr (res, s')"
  shows "request_queue s' = request_queue s \<or>
         (\<exists>f. request_queue s' = request_queue s @ [DiskRequest False f pid])"
  using assms
  by (auto simp: FetchPage_def lock_guard_def Let_def set_page_def
      split: sum.splits option.splits prod.splits if_splits list.splits
      dest!: FetchPage_load_queue)

subsection \<open>\<open>UnpinPage\<close>\<close>

lemma SetEvictable_True_marks:
  assumes "size_t_cast f < replacer_size r"
      and "\<forall>n. node_store r f = Some n \<and> is_evictable n \<longrightarrow> f \<in> set (evictable_list r)"
  shows "\<exists>r'. SetEvictable r f True = Inr r' \<and> f \<in> set (evictable_list r') \<and>
           (\<exists>n. node_store r' f = Some n \<and> is_evictable n)"
  using assms
  by (auto simp: SetEvictable_def node_at_def default_node_def Let_def split: option.splits)

text \<open>
  C4. The call is made with the latch free; when the page is resident, its frame is a frame
  of the pool and of the replacer, its pin count is not negative, and the replacer's flag
  and list agree on it. Then \<open>UnpinPage(page_id, is_dirty)\<close> returns false, and changes
  nothing, exactly when the page is not in the page table or its pin count is zero.
  Otherwise it returns true; the frame's pin count is one less, its dirty flag is the old
  flag or \<open>is_dirty\<close> (so a set flag stays set), nothing else in \<open>pages\<close> and
  nothing in the page table changes; when the pin count has reached zero the frame is in
  the replacer's evictable list and flagged evictable, and otherwise the replacer is
  untouched.
\<close>

theorem UnpinPage_contract:
  assumes free: "\<not> latch s"
      and frame: "\<forall>f. page_table s pid = Some f \<longrightarrow>
                    0 \<le> f \<and> nat f < pool_size s \<and> nat f < replacer_size (replacer s) \<and>
                    0 \<le> pin_count (pages s ! nat f) \<and>
                    (\<forall>n. node_store (replacer s) f = Some n \<and> is_evictable n \<longrightarrow>
                         f \<in> set (evictable_list (replacer s)))"
  shows "case page_table s pid of
           None \<Rightarrow> UnpinPage s pid dirty = Inr (False, s)
         | Some f \<Rightarrow>
             if pin_count (pages s ! nat f) = 0 then UnpinPage s pid dirty = Inr (False, s)
             else
               (\<exists>s'. UnpinPage s pid dirty = Inr (True, s') \<and>
                  pages s' = (pages s)[nat f := (pages s ! nat f)
                                \<lparr>pin_count := pin_count (pages s ! nat f) - 1,
                                 is_dirty := is_dirty (pages s ! nat f) \<or> dirty\<rparr>] \<and>
                  page_table s' = page_table s \<and>
                  (if pin_count (pages s ! nat f) = 1
                   then f \<in> set (evictable_list (replacer s')) \<and>
                        (\<exists>n. node_store (replacer s') f = Some n \<and> is_evictable n)
                   else replacer s' = replacer s))"
proof (cases "page_table s pid")
  case None
  then show ?thesis using free by (simp add: UnpinPage_def lock_guard_def latch_reset)
next
  case (Some f)
  with frame have f: "0 \<le> f" "nat f < length (pages s)" "nat f < replacer_size (replacer s)"
    and pin: "0 \<le> pin_count (pages s ! nat f)"
    and agree: "\<forall>n. node_store (replacer s) f = Some n \<and> is_evictable n \<longrightarrow>
                 f \<in> set (evictable_list (replacer s))"
    by (auto simp: pool_size_def)
  let ?pg = "pages s ! nat f"
  have pa: "page_at (s\<lparr>latch := True\<rparr>) f = Inr ?pg" using f by (simp add: page_at_def)
  show ?thesis
  proof (cases "pin_count ?pg = 0")
    case True
    then show ?thesis using Some free pa by (simp add: UnpinPage_def lock_guard_def latch_reset)
  next
    case False
    with pin have pos: "\<not> pin_count ?pg \<le> 0" by simp
    show ?thesis
    proof (cases "pin_count ?pg = 1")
      case True
      from f have "size_t_cast f < replacer_size (replacer s)" by (simp add: size_t_cast_def)
      from SetEvictable_True_marks[OF this agree] obtain r' where
        r': "SetEvictable (replacer s) f True = Inr r'" "f \<in> set (evictable_list r')"
          "\<exists>n. node_store r' f = Some n \<and> is_evictable n" by blast
      show ?thesis using Some free pa pos True r' f
        by (auto simp: UnpinPage_def lock_guard_def set_page_def Let_def)
    next
      case more: False
      show ?thesis using Some free pa pos False more f
        by (auto simp: UnpinPage_def lock_guard_def set_page_def Let_def)
    qed
  qed
qed

text \<open>
  C4 at \<open>pool_pinned\<close>, page 0 (pinned once) and page 7 (not resident): the hypotheses
  hold; unpinning page 0 as dirty returns true, leaves it dirty, unpinned and evictable;
  unpinning page 7 returns false and changes nothing.
\<close>

theorem UnpinPage_contract_witness:
  "\<not> latch pool_pinned \<and> page_table pool_pinned 0 = Some 0 \<and>
   pin_count (pages pool_pinned ! 0) = 1 \<and> page_table pool_pinned 7 = None \<and>
   (\<exists>s'. UnpinPage pool_pinned 0 True = Inr (True, s') \<and>
      pin_count (pages s' ! 0) = 0 \<and> is_dirty (pages s' ! 0) \<and>
      0 \<in> set (evictable_list (replacer s'))) \<and>
   UnpinPage pool_pinned 7 False = Inr (False, pool_pinned)"
proof -
  have a: "\<not> latch pool_pinned" by (simp add: pool_pinned_def)
  have b: "\<forall>f. page_table pool_pinned 0 = Some f \<longrightarrow>
             0 \<le> f \<and> nat f < pool_size pool_pinned \<and> nat f < replacer_size (replacer pool_pinned) \<and>
             0 \<le> pin_count (pages pool_pinned ! nat f) \<and>
             (\<forall>n. node_store (replacer pool_pinned) f = Some n \<and> is_evictable n \<longrightarrow>
                  f \<in> set (evictable_list (replacer pool_pinned)))"
    by (simp add: pool_pinned_def pool_size_def)
  have c: "\<forall>f. page_table pool_pinned 7 = Some f \<longrightarrow>
             0 \<le> f \<and> nat f < pool_size pool_pinned \<and> nat f < replacer_size (replacer pool_pinned) \<and>
             0 \<le> pin_count (pages pool_pinned ! nat f) \<and>
             (\<forall>n. node_store (replacer pool_pinned) f = Some n \<and> is_evictable n \<longrightarrow>
                  f \<in> set (evictable_list (replacer pool_pinned)))"
    by (simp add: pool_pinned_def)
  have t0: "page_table pool_pinned 0 = Some 0" and t7: "page_table pool_pinned 7 = None"
    and p0: "pin_count (pages pool_pinned ! 0) = 1"
    by (simp_all add: pool_pinned_def)
  from UnpinPage_contract[OF a b, of True] t0 p0
  have "\<exists>s'. UnpinPage pool_pinned 0 True = Inr (True, s') \<and>
          pin_count (pages s' ! 0) = 0 \<and> is_dirty (pages s' ! 0) \<and>
          0 \<in> set (evictable_list (replacer s'))"
    by (auto simp: pool_pinned_def)
  moreover from UnpinPage_contract[OF a c, of False] t7
  have "UnpinPage pool_pinned 7 False = Inr (False, pool_pinned)" by simp
  ultimately show ?thesis using a t0 t7 p0 by simp
qed

subsection \<open>\<open>FlushPage\<close> and \<open>NewPage\<close>\<close>

text \<open>
  C5 (the code departs from it). Page 0 is resident and dirty in \<open>pool_dirty\<close>.
  \<open>FlushPage(0)\<close> does not return true: after it has cleared the flag and scheduled the
  write it calls \<open>DeallocatePage(0)\<close> (line 189), which locks the latch that
  \<open>FlushPage\<close> holds. What \<open>DeallocatePage(0)\<close> does when it can take the latch is
  to append page id 0 to \<open>free_pages\<close>, the pool of deallocated ids.
\<close>

theorem FlushPage_resident_deallocates:
  "page_table pool_dirty 0 = Some 0 \<and> is_dirty (pages pool_dirty ! 0) \<and>
   \<not> latch pool_dirty \<and> free_pages pool_dirty = [] \<and>
   FlushPage pool_dirty 0 = Inl RelockedMutex \<and>
   DeallocatePage pool_dirty 0 = Inr ((), pool_dirty\<lparr>free_pages := [0]\<rparr>)"
  by (simp add: FlushPage_def DeallocatePage_def lock_guard_def page_at_def set_page_def
      Schedule_def pool_dirty_def)

text \<open>
  C6 (the code departs from it). In a new pool of one frame no frame is pinned, and
  \<open>NewPage\<close> does not return a page: it pops frame 0 from the free list and calls
  \<open>AllocatePage\<close> (line 79), which locks the latch that \<open>NewPage\<close> holds.
\<close>

theorem NewPage_fresh_pool_relocks:
  "\<not> all_pined (BufferPoolManager_init 1 2) \<and> \<not> latch (BufferPoolManager_init 1 2) \<and>
   free_list (BufferPoolManager_init 1 2) = [0] \<and>
   NewPage (BufferPoolManager_init 1 2) = Inl RelockedMutex"
  by (simp add: NewPage_def lock_guard_def BufferPoolManager_init_def all_pined_def
      Page_new_def AllocatePage_def)

section \<open>Page guards\<close>

lemma move_construct_transfers: "move_construct that = (that, BasicPageGuard_new)"
  by (simp add: move_construct_def BasicPageGuard_new_def)

lemma Drop_empty: "Drop BasicPageGuard_new s = Inr (BasicPageGuard_new, s)"
  by (simp add: Drop_def BasicPageGuard_new_def)

lemma Drop_idempotent: "Drop g s = Inr (g', s') \<Longrightarrow> Drop g' s' = Inr (g', s')"
  by (auto simp: Drop_def split: option.splits sum.splits prod.splits)

lemma move_assign_result:
  "move_assign this that s = Inr ((this', that'), s') \<Longrightarrow>
     that' = that \<and> bpm this' = None \<and> page this' = page that"
  by (auto simp: move_assign_def Let_def split: sum.splits prod.splits)

text \<open>
  C9 (the code departs from it). Move assignment of \<open>guard_held\<close>, which holds the page
  in frame 0 of \<open>pool_pinned\<close>, to an empty guard: the destination gets the page and the
  dirty flag but a null pool pointer, and the source is left as it was. \<open>Drop\<close> on the
  destination then does nothing, and \<open>Drop\<close> on the source still unpins the page.
\<close>

theorem move_assign_leaves_source:
  "move_assign BasicPageGuard_new guard_held pool_pinned =
     Inr ((guard_held\<lparr>bpm := None\<rparr>, guard_held), pool_pinned) \<and>
   Drop (guard_held\<lparr>bpm := None\<rparr>) pool_pinned = Inr (guard_held\<lparr>bpm := None\<rparr>, pool_pinned) \<and>
   Drop guard_held pool_pinned = Inr (guard_held\<lparr>page := None\<rparr>, pool_dirty) \<and>
   guard_held \<noteq> BasicPageGuard_new"
proof -
  have "page_at pool_pinned 0 = Inr \<lparr>data = ''hello'', page_id = 0, pin_count = 1, is_dirty = False\<rparr>"
    by (simp add: page_at_def pool_pinned_def)
  then show ?thesis
    by (simp add: move_assign_def Drop_def BasicPageGuard_new_def guard_held_def
        UnpinPage_pool_pinned)
qed

section \<open>The copy-on-write trie\<close>

text \<open>
  C10. For every key, the empty one too, and every value type \<open>T\<close>, \<open>Get<T>\<close> on the
  empty trie (root handle null) returns none and does not fault: the walk tests the node
  pointer before it follows it, and the cast of a null pointer is null.
\<close>

theorem Get_empty_trie: "Get T (Trie None) key = Inr None"
  by (cases key) (simp_all add: Get_def dynamic_cast_def)

text \<open>
  C7 (the code departs from it). \<open>Put\<close> with the empty key reads
  \<open>root_->children_\<close> (line 97) without testing \<open>root_\<close>: on the empty trie this
  dereferences a null pointer, for every value.
\<close>

theorem Put_empty_key_empty_trie: "Put (Trie None) [] v = Inl NullDereference"
  by (simp add: Put_def deref_def)

text \<open>
  Everywhere else the round trip holds: when the trie has a root or the key is not empty,
  \<open>Put\<close> returns a trie in which \<open>Get\<close>, at the type of the value, finds the value
  under the key.
\<close>

lemma Putcycle_walk:
  "key \<noteq> [] \<Longrightarrow>
     \<exists>n' x. Putcycle n key v = Inr n' \<and> Get_walk (Some n') key = Inr (Some (Some x)) \<and>
       node_value x = Some v \<and> is_value_node x"
proof (induction key arbitrary: n)
  case Nil
  then show ?case by simp
next
  case (Cons c rest)
  show ?case
  proof (cases "rest = []")
    case True
    then show ?thesis
      by (auto simp: set_child_def deref_def update_conv' TrieNodeWithValue_def split: option.splits)
  next
    case False
    show ?thesis
    proof (cases "map_of (children n) c")
      case None
      from Cons.IH[OF False, of TrieNode_new] obtain n' x where
        "Putcycle TrieNode_new rest v = Inr n'" "Get_walk (Some n') rest = Inr (Some (Some x))"
        "node_value x = Some v" "is_value_node x" by blast
      with None False show ?thesis
        by (auto simp: set_child_def deref_def update_conv')
    next
      case (Some iter)
      from Cons.IH[OF False, of "Clone iter"] obtain n' x where
        "Putcycle (Clone iter) rest v = Inr n'" "Get_walk (Some n') rest = Inr (Some (Some x))"
        "node_value x = Some v" "is_value_node x" by blast
      with Some False show ?thesis
        by (auto simp: set_child_def deref_def update_conv')
    qed
  qed
qed

lemma Put_Get_roundtrip:
  assumes "root t \<noteq> None \<or> key \<noteq> []"
  shows "\<exists>t'. Put t key v = Inr t' \<and> Get (type_of v) t' key = Inr (Some v)"
proof (cases "key = []")
  case True
  with assms obtain r where "root t = Some r" by auto
  with True show ?thesis
    by (auto simp: Put_def deref_def Get_def dynamic_cast_def TrieNodeWithValue_def)
next
  case False
  let ?nr = "case root t of None \<Rightarrow> TrieNode_new | Some r \<Rightarrow> Clone r"
  from Putcycle_walk[OF False, of ?nr v] obtain n' x where
    "Putcycle ?nr key v = Inr n'" "Get_walk (Some n') key = Inr (Some (Some x))"
    "node_value x = Some v" "is_value_node x" by blast
  with False show ?thesis
    by (auto simp: Put_def Get_def dynamic_cast_def Let_def)
qed

text \<open>
  C8 (the code departs from it). \<open>trie_root_only\<close> is built by
  \<open>Trie().Put("a", 1).Put("", 2).Remove("a")\<close>: its root carries the value 2 and has no
  children. \<open>Remove("")\<close> stores a value no longer, so every path has collapsed, but the
  result is not the empty trie: the branch for the empty key (lines 144-148) returns the
  cloned root with its flag cleared and never reaches the test of line 181 that makes the
  root null.
\<close>

theorem Remove_empty_key_keeps_root:
  "Put (Trie None) ''a'' (V_uint32 1) = Inr trie_a \<and>
   Put trie_a [] (V_uint32 2) = Inr trie_a_root \<and>
   Remove trie_a_root ''a'' = trie_root_only \<and>
   Get T_uint32 trie_root_only [] = Inr (Some (V_uint32 2)) \<and>
   Remove trie_root_only [] = Trie (Some (TrieNode [] False (Some (V_uint32 2)))) \<and>
   Remove trie_root_only [] \<noteq> Trie None"
  by (simp add: Put_def Remove_def Get_def dynamic_cast_def deref_def trie_a_def trie_a_root_def
      trie_root_only_def TrieNode_new_def Clone_def TrieNodeWithValue_def set_child_def
      set_is_value_node_def erase_child_def Let_def)

text \<open>
  With a key that is not empty the root does collapse: from \<open>Trie().Put("abc", 1)\<close>,
  \<open>Remove("abc")\<close> is the empty trie (scenario 6 of the specification).
\<close>

lemma Remove_abc_empty:
  "\<exists>t. Put (Trie None) ''abc'' (V_uint32 1) = Inr t \<and> Remove t ''abc'' = Trie None"
  by (simp add: Put_def Remove_def TrieNode_new_def Clone_def TrieNodeWithValue_def set_child_def
      set_is_value_node_def erase_child_def Let_def)

subsection \<open>\<open>Remove\<close> on the other inputs\<close>

lemma children_Clone [simp]: "children (Clone n) = children n"
  by (simp add: Clone_def TrieNodeWithValue_def split: option.splits)

lemma children_set_flag [simp]: "children (set_is_value_node n b) = children n"
  by (simp add: set_is_value_node_def)

lemma flag_set_flag [simp]: "is_value_node (set_is_value_node n b) = b"
  by (simp add: set_is_value_node_def)

lemma Get_walk_Some: "Get_walk (Some n) (ch # key) =
    (case map_of (children n) ch of None \<Rightarrow> Inr None | Some child \<Rightarrow> Get_walk (Some child) key)"
  by (simp add: deref_def)

lemma Get_walk_children:
  "children n = children n' \<Longrightarrow> key \<noteq> [] \<Longrightarrow> Get_walk (Some n) key = Get_walk (Some n') key"
  by (cases key) (simp_all add: deref_def)

lemma Remove_walk_None:
  "Remove_walk n key st = None \<Longrightarrow> Get_walk (Some n) key = Inr None"
proof (induction key arbitrary: n st)
  case Nil then show ?case by simp
next
  case (Cons ch key)
  show ?case
  proof (cases "map_of (children n) ch")
    case None then show ?thesis by (simp add: deref_def)
  next
    case (Some child)
    let ?nn = "set_is_value_node (Clone child) (is_value_node child)"
    from Cons.prems Some have "Remove_walk ?nn key ((ch, n) # st) = None" by (simp add: Let_def)
    from Cons.IH[OF this] have g: "Get_walk (Some ?nn) key = Inr None" .
    have "key \<noteq> []" using g by (cases key) auto
    with g Get_walk_children[of ?nn child key] have "Get_walk (Some child) key = Inr None" by simp
    with Some show ?thesis by (simp add: deref_def)
  qed
qed

lemma Remove_walk_Some:
  "Remove_walk n key st = Some (st', cur) \<Longrightarrow>
     stack_path st' = stack_path st @ key \<and>
     (key = [] \<and> cur = n \<and> st' = st \<or>
      key \<noteq> [] \<and> st' \<noteq> [] \<and> (\<exists>x. Get_walk (Some n) key = Inr (Some (Some x)) \<and>
         is_value_node cur = is_value_node x \<and> children cur = children x))"
proof (induction key arbitrary: n st)
  case Nil then show ?case by simp
next
  case (Cons ch key)
  from Cons.prems obtain child where c: "map_of (children n) ch = Some child"
    by (cases "map_of (children n) ch") auto
  let ?nn = "set_is_value_node (Clone child) (is_value_node child)"
  from Cons.prems c have w: "Remove_walk ?nn key ((ch, n) # st) = Some (st', cur)" by (simp add: Let_def)
  from Cons.IH[OF w] have p: "stack_path st' = stack_path ((ch, n) # st) @ key"
    and d: "key = [] \<and> cur = ?nn \<and> st' = (ch, n) # st \<or>
      key \<noteq> [] \<and> st' \<noteq> [] \<and> (\<exists>x. Get_walk (Some ?nn) key = Inr (Some (Some x)) \<and>
         is_value_node cur = is_value_node x \<and> children cur = children x)" by auto
  from d show ?case
  proof
    assume "key = [] \<and> cur = ?nn \<and> st' = (ch, n) # st"
    with p c show ?thesis by (auto simp: deref_def)
  next
    assume a: "key \<noteq> [] \<and> st' \<noteq> [] \<and> (\<exists>x. Get_walk (Some ?nn) key = Inr (Some (Some x)) \<and>
         is_value_node cur = is_value_node x \<and> children cur = children x)"
    then have "Get_walk (Some ?nn) key = Get_walk (Some child) key"
      using Get_walk_children[of ?nn child key] by simp
    with a p c show ?thesis by (auto simp: deref_def)
  qed
qed

text \<open>
  What \<open>Remove\<close> does apart from the collapse of the root under the empty key. When no
  value is stored under the key, it returns the trie it was given.
\<close>

lemma Remove_absent:
  assumes "\<not> has_value t key"
  shows "Remove t key = t"
proof (cases "root t")
  case None then show ?thesis by (simp add: Remove_def)
next
  case (Some r)
  let ?nr = "if \<not> is_value_node r then set_is_value_node (Clone r) False else Clone r"
  show ?thesis
  proof (cases "key = []")
    case True
    with assms Some have "\<not> is_value_node r" by (simp add: has_value_def)
    with True Some show ?thesis by (simp add: Remove_def Let_def)
  next
    case False
    show ?thesis
    proof (cases "Remove_walk ?nr key []")
      case None
      with Some False show ?thesis by (simp add: Remove_def Let_def)
    next
      case Some2: (Some res)
      obtain st cur where res: "res = (st, cur)" by (cases res)
      from Remove_walk_Some[OF Some2[unfolded res]] False obtain x where
        x: "Get_walk (Some ?nr) key = Inr (Some (Some x))" "is_value_node cur = is_value_node x" by auto
      have "Get_walk (Some ?nr) key = Get_walk (Some r) key"
        using False by (intro Get_walk_children) auto
      with x assms Some have "\<not> is_value_node cur" by (simp add: has_value_def)
      with Some Some2 res False show ?thesis by (simp add: Remove_def Let_def)
    qed
  qed
qed


lemma Remove_link_walk:
  "Get_walk (Some (Remove_link st y)) (stack_path st @ rest) = Get_walk (Some y) rest"
proof (induction st arbitrary: y rest)
  case Nil then show ?case by simp
next
  case (Cons a st)
  obtain ch parent where a: "a = (ch, parent)" by (cases a)
  have "Get_walk (Some (Remove_link st (set_child parent ch y))) (stack_path st @ (ch # rest)) =
        Get_walk (Some (set_child parent ch y)) (ch # rest)" by (rule Cons.IH)
  then show ?case using a by (simp add: deref_def set_child_def update_conv')
qed

lemma Remove_prune_walk:
  "Get_walk (Some (Remove_prune st y)) (stack_path st @ rest) =
     (if st \<noteq> [] \<and> children y = [] \<and> \<not> is_value_node y then Inr None
      else Get_walk (Some y) rest)"
proof (induction st arbitrary: y rest)
  case Nil then show ?case by simp
next
  case (Cons a st)
  obtain ch parent where a: "a = (ch, parent)" by (cases a)
  show ?case
  proof (cases "children y = [] \<and> \<not> is_value_node y")
    case True
    have "Get_walk (Some (Remove_prune st (erase_child parent ch))) (stack_path st @ (ch # rest)) =
          (if st \<noteq> [] \<and> children (erase_child parent ch) = [] \<and> \<not> is_value_node (erase_child parent ch)
           then Inr None else Get_walk (Some (erase_child parent ch)) (ch # rest))"
      by (rule Cons.IH)
    moreover have "Get_walk (Some (erase_child parent ch)) (ch # rest) = Inr None"
      by (simp add: deref_def erase_child_def delete_conv')
    ultimately show ?thesis using a True by simp
  next
    case False
    have "Get_walk (Some (Remove_link (a # st) y)) (stack_path (a # st) @ rest) = Get_walk (Some y) rest"
      by (rule Remove_link_walk)
    with a False show ?thesis by auto
  qed
qed

lemma Get_not_value: "Get_walk (root t) key = Inr (Some (Some x)) \<Longrightarrow> \<not> is_value_node x \<Longrightarrow> Get T t key = Inr None"
  by (simp add: Get_def dynamic_cast_def split: option.splits)

lemma Get_walk_None: "Get_walk (root t) key = Inr None \<Longrightarrow> Get T t key = Inr None"
  by (simp add: Get_def)

text \<open>In the trie that \<open>Remove\<close> returns, \<open>Get\<close> finds nothing under the key, at any type.\<close>

lemma Remove_clears:
  "Get T (Remove t key) key = Inr None"
proof (cases "root t")
  case None then show ?thesis by (cases key) (simp_all add: Remove_def Get_def dynamic_cast_def)
next
  case (Some r)
  let ?nr = "if \<not> is_value_node r then set_is_value_node (Clone r) False else Clone r"
  have cnr: "children ?nr = children r" by simp
  show ?thesis
  proof (cases "key = []")
    case True
    show ?thesis
    proof (cases "is_value_node ?nr")
      case True
      with \<open>key = []\<close> Some show ?thesis
        by (simp add: Remove_def Let_def Get_def dynamic_cast_def set_is_value_node_def split: option.splits)
    next
      case False
      then have "Remove t key = t" using \<open>key = []\<close> Some by (simp add: Remove_def Let_def)
      moreover have "Get T t [] = Inr None" using False Some
        by (auto simp: Get_def dynamic_cast_def Clone_def TrieNodeWithValue_def split: option.splits if_splits)
      ultimately show ?thesis using \<open>key = []\<close> by simp
    qed
  next
    case False
    have same: "Get_walk (Some ?nr) key = Get_walk (Some r) key"
      using False by (intro Get_walk_children) auto
    show ?thesis
    proof (cases "Remove_walk ?nr key []")
      case None
      from Remove_walk_None[OF None] same Some have "Get_walk (root t) key = Inr None" by simp
      then have "Get T t key = Inr None" by (rule Get_walk_None)
      moreover have "Remove t key = t" using None Some False by (simp add: Remove_def Let_def)
      ultimately show ?thesis by simp
    next
      case Some2: (Some res)
      obtain st cur where res: "res = (st, cur)" by (cases res)
      from Remove_walk_Some[OF Some2[unfolded res]] False obtain x where
        p: "stack_path st = key" and ne: "st \<noteq> []"
        and x: "Get_walk (Some ?nr) key = Inr (Some (Some x))" "is_value_node cur = is_value_node x" by auto
      show ?thesis
      proof (cases "is_value_node cur")
        case False
        with x same Some have "Get_walk (root t) key = Inr (Some (Some x))" "\<not> is_value_node x" by auto
        then have "Get T t key = Inr None" by (rule Get_not_value)
        moreover have "Remove t key = t" using Some2 res Some False \<open>key \<noteq> []\<close> by (simp add: Remove_def Let_def)
        ultimately show ?thesis by simp
      next
        case True
        let ?cur = "set_is_value_node cur False"
        let ?pruned = "Remove_prune st ?cur"
        have w: "Get_walk (Some ?pruned) key =
                 (if children ?cur = [] \<and> \<not> is_value_node ?cur then Inr None else Inr (Some (Some ?cur)))"
          using Remove_prune_walk[of st ?cur "[]"] p ne by simp
        have g: "Get T (Trie (Some ?pruned)) key = Inr None"
        proof (cases "children ?cur = [] \<and> \<not> is_value_node ?cur")
          case True
          with w have "Get_walk (root (Trie (Some ?pruned))) key = Inr None" by simp
          then show ?thesis by (rule Get_walk_None)
        next
          case False
          with w have "Get_walk (root (Trie (Some ?pruned))) key = Inr (Some (Some ?cur))" by simp
          then show ?thesis by (rule Get_not_value) simp
        qed
        have e: "Get T (Trie None) key = Inr None"
          by (cases key) (simp_all add: Get_def dynamic_cast_def)
        have "Remove t key = Trie None \<or> Remove t key = Trie (Some ?pruned)"
          using Some2 res Some True \<open>key \<noteq> []\<close> by (simp add: Remove_def Let_def)
        with g e show ?thesis by auto
      qed
    qed
  qed
qed


lemma stack_path_append: "stack_path (st1 @ st2) = stack_path st2 @ stack_path st1"
  by (induction st1) auto

lemma stack_path_split:
  "stack_path st = p @ q \<Longrightarrow> \<exists>st1 st2. st = st1 @ st2 \<and> stack_path st2 = p"
proof (induction st arbitrary: q)
  case Nil then show ?case by simp
next
  case (Cons a st)
  obtain ch parent where a: "a = (ch, parent)" by (cases a)
  show ?case
  proof (cases "q = []")
    case True
    with Cons.prems have "a # st = [] @ (a # st) \<and> stack_path (a # st) = p" by simp
    then show ?thesis by blast
  next
    case False
    then obtain q' c where q: "q = q' @ [c]" by (cases q rule: rev_cases) auto
    with Cons.prems a have "stack_path st = p @ q'" by simp
    from Cons.IH[OF this] obtain st1 st2 where "st = st1 @ st2" "stack_path st2 = p" by blast
    then have "a # st = (a # st1) @ st2 \<and> stack_path st2 = p" by simp
    then show ?thesis by blast
  qed
qed

lemma Remove_link_append: "Remove_link (st1 @ st2) w = Remove_link st2 (Remove_link st1 w)"
  by (induction st1 arbitrary: w) auto

lemma children_set_child: "children (set_child n c x) \<noteq> []"
  by (cases "children n") (auto simp: set_child_def)

lemma Remove_link_children: "children w \<noteq> [] \<Longrightarrow> children (Remove_link st w) \<noteq> []"
proof (induction st arbitrary: w)
  case Nil
  then show ?case by simp
next
  case (Cons a st)
  obtain ch parent where a: "a = (ch, parent)" by (cases a)
  have "children (Remove_link st (set_child parent ch w)) \<noteq> []"
    by (rule Cons.IH) (rule children_set_child)
  with a show ?case by simp
qed

lemma Remove_prune_append:
  "(\<exists>z. Remove_prune (st1 @ st2) y = Remove_prune st2 z) \<or>
   (\<exists>z. Remove_prune (st1 @ st2) y = Remove_link st2 z \<and> children z \<noteq> [])"
proof (induction st1 arbitrary: y)
  case Nil then show ?case by auto
next
  case (Cons a st1)
  obtain ch parent where a: "a = (ch, parent)" by (cases a)
  show ?case
  proof (cases "children y = [] \<and> \<not> is_value_node y")
    case True
    with a Cons.IH[of "erase_child parent ch"] show ?thesis by simp
  next
    case False
    have "Remove_prune ((a # st1) @ st2) y = Remove_link st2 (Remove_link st1 (set_child parent ch y))"
      using False a by (auto simp: Remove_link_append)
    moreover have "children (Remove_link st1 (set_child parent ch y)) \<noteq> []"
      by (rule Remove_link_children) (rule children_set_child)
    ultimately show ?thesis by blast
  qed
qed

lemma Remove_prune_path:
  assumes "p \<noteq> []" and "stack_path st = p @ q"
      and "Get_walk (Some (Remove_prune st y)) p = Inr (Some (Some x))"
  shows "is_value_node x \<or> children x \<noteq> []"
proof -
  from stack_path_split[OF assms(2)] obtain st1 st2 where st: "st = st1 @ st2" and p: "stack_path st2 = p"
    by blast
  from assms(1) p have ne: "st2 \<noteq> []" by auto
  from Remove_prune_append[of st1 st2 y] show ?thesis
  proof
    assume "\<exists>z. Remove_prune (st1 @ st2) y = Remove_prune st2 z"
    then obtain z where z: "Remove_prune (st1 @ st2) y = Remove_prune st2 z" by blast
    from Remove_prune_walk[of st2 z "[]"] p ne
    have "Get_walk (Some (Remove_prune st2 z)) p =
            (if children z = [] \<and> \<not> is_value_node z then Inr None else Inr (Some (Some z)))" by simp
    with assms(3) st z show ?thesis by (auto split: if_splits)
  next
    assume "\<exists>z. Remove_prune (st1 @ st2) y = Remove_link st2 z \<and> children z \<noteq> []"
    then obtain z where z: "Remove_prune (st1 @ st2) y = Remove_link st2 z" "children z \<noteq> []" by blast
    from Remove_link_walk[of st2 z "[]"] p have "Get_walk (Some (Remove_link st2 z)) p = Inr (Some (Some z))" by simp
    with assms(3) st z show ?thesis by auto
  qed
qed

text \<open>
  After the removal of a stored value under a key that is not empty, every node that is left
  on the path of the key below the root carries a value or has a child: the nodes without
  both have been pruned.
\<close>

lemma Remove_prunes_path:
  assumes stored: "has_value t key" and "key \<noteq> []" and "p \<noteq> []" and "p @ q = key"
      and x: "Get_walk (root (Remove t key)) p = Inr (Some (Some x))"
  shows "is_value_node x \<or> children x \<noteq> []"
proof -
  from stored obtain r where r: "root t = Some r"
    using \<open>key \<noteq> []\<close> by (cases "root t"; cases key) (auto simp: has_value_def)
  let ?nr = "if \<not> is_value_node r then set_is_value_node (Clone r) False else Clone r"
  have same: "Get_walk (Some ?nr) key = Get_walk (Some r) key"
    using \<open>key \<noteq> []\<close> by (intro Get_walk_children) auto
  show ?thesis
  proof (cases "Remove_walk ?nr key []")
    case None
    from Remove_walk_None[OF None] same r stored show ?thesis by (simp add: has_value_def)
  next
    case Some2: (Some res)
    obtain st cur where res: "res = (st, cur)" by (cases res)
    from Remove_walk_Some[OF Some2[unfolded res]] \<open>key \<noteq> []\<close> obtain y where
      path: "stack_path st = key"
      and y: "Get_walk (Some ?nr) key = Inr (Some (Some y))" "is_value_node cur = is_value_node y" by auto
    from y same r stored have flagged: "is_value_node cur" by (simp add: has_value_def)
    let ?pruned = "Remove_prune st (set_is_value_node cur False)"
    have "Remove t key = Trie None \<or> Remove t key = Trie (Some ?pruned)"
      using Some2 res r flagged \<open>key \<noteq> []\<close> by (simp add: Remove_def Let_def)
    then show ?thesis
    proof
      assume "Remove t key = Trie None"
      with x \<open>p \<noteq> []\<close> show ?thesis by (cases p) auto
    next
      assume "Remove t key = Trie (Some ?pruned)"
      with x have "Get_walk (Some ?pruned) p = Inr (Some (Some x))" by simp
      from Remove_prune_path[OF \<open>p \<noteq> []\<close> _ this, of q] path \<open>p @ q = key\<close> show ?thesis by simp
    qed
  qed
qed

text \<open>
  After the removal of a stored value under a key that is not empty, the trie is empty or
  its root carries a value or has a child.
\<close>

lemma Remove_collapses_root:
  assumes stored: "has_value t key" and "key \<noteq> []"
  shows "case root (Remove t key) of None \<Rightarrow> True | Some n \<Rightarrow> is_value_node n \<or> children n \<noteq> []"
proof -
  from stored obtain r where r: "root t = Some r"
    using \<open>key \<noteq> []\<close> by (cases "root t"; cases key) (auto simp: has_value_def)
  let ?nr = "if \<not> is_value_node r then set_is_value_node (Clone r) False else Clone r"
  have same: "Get_walk (Some ?nr) key = Get_walk (Some r) key"
    using \<open>key \<noteq> []\<close> by (intro Get_walk_children) auto
  show ?thesis
  proof (cases "Remove_walk ?nr key []")
    case None
    from Remove_walk_None[OF None] same r stored show ?thesis by (simp add: has_value_def)
  next
    case Some2: (Some res)
    obtain st cur where res: "res = (st, cur)" by (cases res)
    from Remove_walk_Some[OF Some2[unfolded res]] \<open>key \<noteq> []\<close> obtain y where
      y: "Get_walk (Some ?nr) key = Inr (Some (Some y))" "is_value_node cur = is_value_node y" by auto
    from y same r stored have flagged: "is_value_node cur" by (simp add: has_value_def)
    show ?thesis using Some2 res r flagged \<open>key \<noteq> []\<close> by (auto simp: Remove_def Let_def)
  qed
qed

end
